theory Spec2Isabelle
  imports Main
begin

section \<open>Fixed-capacity ring and fifo buffers\<close>

text \<open>
  The headers \<^verbatim>\<open>ring_buf.h\<close> and \<^verbatim>\<open>fifo_buf.h\<close> keep a heap array \<open>d\<close>
  together with a few \<open>int\<close> fields and are generic in the element type (the macros
  \<open>RINGBUF_TYPE\<close> and \<open>FIFOBUF_TYPE\<close>). The model is a state-passing one:
  \<^item> the element type is a type variable; \<open>calloc\<close> and \<open>memset\<close> produce its \<open>0\<close>;
  \<^item> a pointer is an \<open>option\<close>: \<open>None\<close> is \<open>NULL\<close>; the array behind \<open>d\<close> is a list
    whose length is the number of elements that were allocated;
  \<^item> a C \<open>int\<close> is a mathematical integer. On a well-formed buffer every sum and
    difference that the functions compute lies between \<open>-capacity\<close> and \<open>capacity\<close>, with
    one exception: \<open>tail + available\<close> in \<open>rc_fifobuf_push\<close> can reach twice the capacity.
    That sum is computed by \<open>c_add\<close>, which leaves the range of \<open>int\<close> with a fault;
  \<^item> a function takes the pointee of \<open>buf\<close> and returns the C return value with the new
    pointee; an out-parameter is returned as \<open>Some\<close> of what was stored through it, or
    \<open>None\<close> when the function did not store anything;
  \<^item> what C leaves undefined (access through \<open>NULL\<close>, an index outside the array,
    \<open>%\<close> by zero, signed overflow) is a \<open>fault\<close>, the \<open>Inl\<close> side of the result;
  \<^item> whether \<open>calloc\<close> can serve a request is not decided by the program: it is the
    first argument of the two \<open>alloc\<close> functions.
\<close>

subsection \<open>C primitives\<close>

datatype fault = Null_Pointer | Out_Of_Bounds | Division_By_Zero | Signed_Overflow

text \<open>\<open>d[i]\<close> as an rvalue.\<close>

definition array_get :: "'a list option \<Rightarrow> int \<Rightarrow> fault + 'a" where
  "array_get p i =
     (case p of
        None \<Rightarrow> Inl Null_Pointer
      | Some xs \<Rightarrow>
          if 0 \<le> i \<and> i < int (length xs) then Inr (xs ! nat i) else Inl Out_Of_Bounds)"

text \<open>\<open>d[i] = v\<close>.\<close>

definition array_set :: "'a list option \<Rightarrow> int \<Rightarrow> 'a \<Rightarrow> fault + 'a list option" where
  "array_set p i v =
     (case p of
        None \<Rightarrow> Inl Null_Pointer
      | Some xs \<Rightarrow>
          if 0 \<le> i \<and> i < int (length xs) then Inr (Some (xs[nat i := v]))
          else Inl Out_Of_Bounds)"

text \<open>\<open>memset(d, 0, n * sizeof(T))\<close>: the first \<open>n\<close> elements become zero.\<close>

definition memset_zero :: "'a::zero list option \<Rightarrow> int \<Rightarrow> fault + 'a list option" where
  "memset_zero p n =
     (case p of
        None \<Rightarrow> Inl Null_Pointer
      | Some xs \<Rightarrow>
          if 0 \<le> n \<and> n \<le> int (length xs)
          then Inr (Some (replicate (nat n) 0 @ drop (nat n) xs))
          else Inl Out_Of_Bounds)"

text \<open>\<open>calloc(n, sizeof(T))\<close>: zero-filled storage for \<open>n\<close> elements, or \<open>NULL\<close>.\<close>

definition calloc :: "bool \<Rightarrow> int \<Rightarrow> 'a::zero list option" where
  "calloc mem_ok n = (if mem_ok then Some (replicate (nat n) 0) else None)"

text \<open>C's \<open>%\<close> on \<open>int\<close>: the remainder has the sign of the dividend.\<close>

definition c_rem :: "int \<Rightarrow> int \<Rightarrow> fault + int" where
  "c_rem a b = (if b = 0 then Inl Division_By_Zero else Inr (sgn a * (\<bar>a\<bar> mod \<bar>b\<bar>)))"

text \<open>The range of a 32-bit \<open>int\<close>, and \<open>+\<close> on it: a sum outside the range is undefined.\<close>

definition INT_MAX :: int where
  "INT_MAX = 2147483647"

definition INT_MIN :: int where
  "INT_MIN = - 2147483648"

definition c_add :: "int \<Rightarrow> int \<Rightarrow> fault + int" where
  "c_add a b =
     (if INT_MIN \<le> a + b \<and> a + b \<le> INT_MAX then Inr (a + b) else Inl Signed_Overflow)"

subsection \<open>The ring buffer of \<^verbatim>\<open>ring_buf.h\<close>\<close>

record 'a rc_ringbuf_t =
  rb_d :: "'a list option"
  rb_size :: int
  rb_index :: int
  rb_initialized :: int

text \<open>\<open>RC_RINGBUF_INITIALIZER\<close> and \<open>rc_ringbuf_empty\<close>.\<close>

definition rc_ringbuf_empty :: "'a rc_ringbuf_t" where
  "rc_ringbuf_empty = \<lparr>rb_d = None, rb_size = 0, rb_index = 0, rb_initialized = 0\<rparr>"

text \<open>
  \<open>alloc\<close> zeroes the \<open>int\<close> fields, frees the old storage and stores the result of
  \<open>calloc\<close> in \<open>d\<close>; only if that is not \<open>NULL\<close> are the capacity and the flag set.
\<close>

definition rc_ringbuf_alloc ::
  "bool \<Rightarrow> 'a::zero rc_ringbuf_t option \<Rightarrow> int \<Rightarrow> int \<times> 'a rc_ringbuf_t option" where
  "rc_ringbuf_alloc mem_ok buf sz =
     (case buf of
        None \<Rightarrow> (- 1, None)
      | Some b \<Rightarrow>
          if sz < 2 then (- 1, Some b)
          else if rb_initialized b \<noteq> 0 \<and> rb_size b = sz \<and> rb_d b \<noteq> None then (0, Some b)
          else
            (let b1 = b\<lparr>rb_size := 0, rb_index := 0, rb_initialized := 0\<rparr>;
                 b2 = b1\<lparr>rb_d := calloc mem_ok sz\<rparr>
             in if rb_d b2 = None then (- 1, Some b2)
                else (0, Some (b2\<lparr>rb_size := sz, rb_initialized := 1\<rparr>))))"

text \<open>
  \<open>free\<close> hands the storage back if the flag is set and then overwrites the struct with
  the initializer. The heap is not part of the state, so only the overwrite shows.
\<close>

definition rc_ringbuf_free :: "'a rc_ringbuf_t option \<Rightarrow> int \<times> 'a rc_ringbuf_t option" where
  "rc_ringbuf_free buf =
     (case buf of
        None \<Rightarrow> (- 1, None)
      | Some b \<Rightarrow> (0, Some rc_ringbuf_empty))"

definition rc_ringbuf_reset ::
  "'a::zero rc_ringbuf_t option \<Rightarrow> fault + int \<times> 'a rc_ringbuf_t option" where
  "rc_ringbuf_reset buf =
     (case buf of
        None \<Rightarrow> Inr (- 1, None)
      | Some b \<Rightarrow>
          if rb_initialized b = 0 then Inr (- 1, Some b)
          else
            (case memset_zero (rb_d b) (rb_size b) of
               Inl f \<Rightarrow> Inl f
             | Inr d' \<Rightarrow> Inr (0, Some (b\<lparr>rb_d := d', rb_index := 0\<rparr>))))"

definition rc_ringbuf_insert ::
  "'a rc_ringbuf_t option \<Rightarrow> 'a \<Rightarrow> fault + int \<times> 'a rc_ringbuf_t option" where
  "rc_ringbuf_insert buf val =
     (case buf of
        None \<Rightarrow> Inr (- 1, None)
      | Some b \<Rightarrow>
          if rb_initialized b = 0 then Inr (- 1, Some b)
          else
            (let new_index = rb_index b + 1;
                 new_index = (if new_index \<ge> rb_size b then 0 else new_index)
             in case array_set (rb_d b) new_index val of
                  Inl f \<Rightarrow> Inl f
                | Inr d' \<Rightarrow> Inr (0, Some (b\<lparr>rb_d := d', rb_index := new_index\<rparr>))))"

text \<open>
  The position test comes before the test of \<open>initialized\<close>, as in the source; both
  return \<open>-1\<close> (the source's \<open>-1.0f\<close> converted to the \<open>int\<close> return type).
\<close>

definition rc_ringbuf_get_value ::
  "'a rc_ringbuf_t option \<Rightarrow> int \<Rightarrow> fault + int \<times> 'a option" where
  "rc_ringbuf_get_value buf position =
     (case buf of
        None \<Rightarrow> Inr (- 1, None)
      | Some b \<Rightarrow>
          if position < 0 \<or> position > rb_size b - 1 then Inr (- 1, None)
          else if rb_initialized b = 0 then Inr (- 1, None)
          else
            (let return_index = rb_index b - position;
                 return_index =
                   (if return_index < 0 then return_index + rb_size b else return_index)
             in case array_get (rb_d b) return_index of
                  Inl f \<Rightarrow> Inl f
                | Inr v \<Rightarrow> Inr (0, Some v)))"

text \<open>
  \<open>rc_ringbuf_get_value_ptr\<close> stores the address of the slot instead of its content;
  the address of \<open>d[i]\<close> is modelled by the index \<open>i\<close>.
\<close>

definition rc_ringbuf_get_value_ptr ::
  "'a rc_ringbuf_t option \<Rightarrow> int \<Rightarrow> fault + int \<times> int option" where
  "rc_ringbuf_get_value_ptr buf position =
     (case buf of
        None \<Rightarrow> Inr (- 1, None)
      | Some b \<Rightarrow>
          if position < 0 \<or> position > rb_size b - 1 then Inr (- 1, None)
          else if rb_initialized b = 0 then Inr (- 1, None)
          else
            (let return_index = rb_index b - position;
                 return_index =
                   (if return_index < 0 then return_index + rb_size b else return_index)
             in case array_get (rb_d b) return_index of
                  Inl f \<Rightarrow> Inl f
                | Inr v \<Rightarrow> Inr (0, Some return_index)))"

subsection \<open>The fifo buffer of \<^verbatim>\<open>fifo_buf.h\<close>\<close>

record 'a rc_fifobuf_t =
  ff_d :: "'a list option"
  ff_size :: int
  ff_tail :: int
  ff_available :: int
  ff_initialized :: int

text \<open>\<open>RC_FIFOBUF_INITIALIZER\<close> and \<open>rc_fifobuf_empty\<close>.\<close>

definition rc_fifobuf_empty :: "'a rc_fifobuf_t" where
  "rc_fifobuf_empty =
     \<lparr>ff_d = None, ff_size = 0, ff_tail = 0, ff_available = 0, ff_initialized = 0\<rparr>"

definition rc_fifobuf_alloc ::
  "bool \<Rightarrow> 'a::zero rc_fifobuf_t option \<Rightarrow> int \<Rightarrow> int \<times> 'a rc_fifobuf_t option" where
  "rc_fifobuf_alloc mem_ok buf sz =
     (case buf of
        None \<Rightarrow> (- 1, None)
      | Some b \<Rightarrow>
          if sz < 2 then (- 1, Some b)
          else if ff_initialized b \<noteq> 0 \<and> ff_size b = sz \<and> ff_d b \<noteq> None then (0, Some b)
          else
            (let b1 = b\<lparr>ff_size := 0, ff_tail := 0, ff_available := 0, ff_initialized := 0\<rparr>;
                 b2 = b1\<lparr>ff_d := calloc mem_ok sz\<rparr>
             in if ff_d b2 = None then (- 1, Some b2)
                else (0, Some (b2\<lparr>ff_size := sz, ff_initialized := 1\<rparr>))))"

definition rc_fifobuf_free :: "'a rc_fifobuf_t option \<Rightarrow> int \<times> 'a rc_fifobuf_t option" where
  "rc_fifobuf_free buf =
     (case buf of
        None \<Rightarrow> (- 1, None)
      | Some b \<Rightarrow> (0, Some rc_fifobuf_empty))"



definition rc_fifobuf_push ::
  "'a rc_fifobuf_t option \<Rightarrow> 'a \<Rightarrow> fault + int \<times> 'a rc_fifobuf_t option" where
  "rc_fifobuf_push buf val =
     (case buf of
        None \<Rightarrow> Inr (- 1, None)
      | Some b \<Rightarrow>
          if ff_initialized b = 0 then Inr (- 1, Some b)
          else if ff_available b = ff_size b then Inr (- 1, Some b)
          else
            (case c_add (ff_tail b) (ff_available b) of
               Inl f \<Rightarrow> Inl f
             | Inr s \<Rightarrow>
                 (case c_rem s (ff_size b) of
                    Inl f \<Rightarrow> Inl f
                  | Inr new_index \<Rightarrow>
                      (case array_set (ff_d b) new_index val of
                         Inl f \<Rightarrow> Inl f
                       | Inr d' \<Rightarrow>
                           Inr (0, Some (b\<lparr>ff_d := d',
                                          ff_available := ff_available b + 1\<rparr>))))))"



subsection \<open>Well-formed buffers\<close>

text \<open>
  The states a caller can produce from the empty buffer with the functions above: either
  nothing is allocated and every field is zero, or \<open>d\<close> holds \<open>size \<ge> 2\<close> elements, the
  flag is set and the cursors are in range.
\<close>

definition ringbuf_inv :: "'a rc_ringbuf_t \<Rightarrow> bool" where
  "ringbuf_inv b =
     (case rb_d b of
        None \<Rightarrow> rb_size b = 0 \<and> rb_index b = 0 \<and> rb_initialized b = 0
      | Some xs \<Rightarrow>
          rb_initialized b = 1 \<and> int (length xs) = rb_size b \<and> 2 \<le> rb_size b \<and>
          0 \<le> rb_index b \<and> rb_index b < rb_size b)"

definition fifobuf_inv :: "'a rc_fifobuf_t \<Rightarrow> bool" where
  "fifobuf_inv b =
     (case ff_d b of
        None \<Rightarrow> ff_size b = 0 \<and> ff_tail b = 0 \<and> ff_available b = 0 \<and> ff_initialized b = 0
      | Some xs \<Rightarrow>
          ff_initialized b = 1 \<and> int (length xs) = ff_size b \<and> 2 \<le> ff_size b \<and>
          0 \<le> ff_tail b \<and> ff_tail b < ff_size b \<and>
          0 \<le> ff_available b \<and> ff_available b \<le> ff_size b)"

subsection \<open>Callers\<close>

text \<open>
  A caller owns one buffer struct and passes its address to a sequence of API calls, as
  the two test programs do. A call gives back the return value and what it stored through
  its out-parameter.
\<close>

datatype 'a reply = Ret int | Ret_value int "'a option" | Ret_ptr int "int option"

text \<open>The struct behind a pointer after a call that was given the address of \<open>b\<close>.\<close>

definition pointee :: "'s \<Rightarrow> 's option \<Rightarrow> 's" where
  "pointee b r = (case r of None \<Rightarrow> b | Some b' \<Rightarrow> b')"

datatype 'a ring_call =
    Ring_alloc bool int
  | Ring_free
  | Ring_reset
  | Ring_insert 'a
  | Ring_get_value int
  | Ring_get_value_ptr int

fun ring_step :: "'a::zero ring_call \<Rightarrow> 'a rc_ringbuf_t \<Rightarrow> fault + 'a reply \<times> 'a rc_ringbuf_t" where
  "ring_step (Ring_alloc mem_ok sz) b =
     (case rc_ringbuf_alloc mem_ok (Some b) sz of (rc, r) \<Rightarrow> Inr (Ret rc, pointee b r))"
| "ring_step Ring_free b =
     (case rc_ringbuf_free (Some b) of (rc, r) \<Rightarrow> Inr (Ret rc, pointee b r))"
| "ring_step Ring_reset b =
     (case rc_ringbuf_reset (Some b) of
        Inl f \<Rightarrow> Inl f
      | Inr (rc, r) \<Rightarrow> Inr (Ret rc, pointee b r))"
| "ring_step (Ring_insert v) b =
     (case rc_ringbuf_insert (Some b) v of
        Inl f \<Rightarrow> Inl f
      | Inr (rc, r) \<Rightarrow> Inr (Ret rc, pointee b r))"
| "ring_step (Ring_get_value p) b =
     (case rc_ringbuf_get_value (Some b) p of
        Inl f \<Rightarrow> Inl f
      | Inr (rc, v) \<Rightarrow> Inr (Ret_value rc v, b))"
| "ring_step (Ring_get_value_ptr p) b =
     (case rc_ringbuf_get_value_ptr (Some b) p of
        Inl f \<Rightarrow> Inl f
      | Inr (rc, i) \<Rightarrow> Inr (Ret_ptr rc i, b))"

fun ring_run ::
  "'a::zero ring_call list \<Rightarrow> 'a rc_ringbuf_t \<Rightarrow> fault + 'a reply list \<times> 'a rc_ringbuf_t" where
  "ring_run [] b = Inr ([], b)"
| "ring_run (c # cs) b =
     (case ring_step c b of
        Inl f \<Rightarrow> Inl f
      | Inr (r, b') \<Rightarrow>
          (case ring_run cs b' of
             Inl f \<Rightarrow> Inl f
           | Inr (rs, b'') \<Rightarrow> Inr (r # rs, b'')))"





section \<open>Verification\<close>

subsection \<open>Index arithmetic\<close>

text \<open>
  The two wrap-around tests of the ring buffer compute a remainder, and stepping the cursor
  forward moves every look-back position by one without reaching the new slot.
\<close>

lemma wrap_inc:
  fixes i n :: int
  assumes "0 \<le> i" "i < n"
  shows "(if i + 1 \<ge> n then 0 else i + 1) = (i + 1) mod n"
proof (cases "i + 1 \<ge> n")
  case True
  with assms have "i + 1 = n" by simp
  then show ?thesis by simp
next
  case False
  with assms show ?thesis by simp
qed

lemma wrap_dec:
  fixes i p n :: int
  assumes "0 \<le> i" "i < n" "0 \<le> p" "p < n"
  shows "(i - p) mod n = (if i < p then i - p + n else i - p)"
proof (cases "i < p")
  case True
  have "(i - p) mod n = (i - p + n) mod n" by simp
  also have "\<dots> = i - p + n"
    using assms True by (intro mod_pos_pos_trivial) simp_all
  finally show ?thesis using True by simp
next
  case False
  with assms show ?thesis by simp
qed

lemma shifted_index:
  fixes i p n :: int
  shows "((i + 1) mod n - (p + 1)) mod n = (i - p) mod n"
proof -
  have "((i + 1) mod n - (p + 1)) mod n = ((i + 1) - (p + 1)) mod n"
    by (rule mod_diff_left_eq)
  then show ?thesis by simp
qed

lemma other_slot:
  fixes i p n :: int
  assumes "0 \<le> p" "p \<le> n - 2"
  shows "(i - p) mod n \<noteq> (i + 1) mod n"
proof
  assume "(i - p) mod n = (i + 1) mod n"
  then have "n dvd (i - p) - (i + 1)" by (simp only: mod_eq_dvd_iff)
  then have "n dvd - (p + 1)" by simp
  then have "n dvd p + 1" by (simp only: dvd_minus_iff)
  moreover have "0 < p + 1" "p + 1 < n" using assms by simp_all
  ultimately show False using zdvd_not_zless by blast
qed

subsection \<open>Ring buffer: insert and look-back on a well-formed buffer\<close>

lemma ring_inv_allocated:
  assumes "ringbuf_inv b" "rb_initialized b \<noteq> 0"
  obtains xs where "rb_d b = Some xs" "int (length xs) = rb_size b" "2 \<le> rb_size b"
    "0 \<le> rb_index b" "rb_index b < rb_size b" "rb_initialized b = 1"
  using assms by (cases "rb_d b") (simp_all add: ringbuf_inv_def)

lemma ring_insert_ok:
  assumes "ringbuf_inv b" "rb_d b = Some xs"
  shows "rc_ringbuf_insert (Some b) v =
    Inr (0, Some (b\<lparr>rb_d := Some (xs[nat ((rb_index b + 1) mod rb_size b) := v]),
                     rb_index := (rb_index b + 1) mod rb_size b\<rparr>))"
proof -
  from assms have inv: "rb_initialized b = 1" "int (length xs) = rb_size b"
    "0 \<le> rb_index b" "rb_index b < rb_size b"
    by (simp_all add: ringbuf_inv_def)
  let ?k = "(rb_index b + 1) mod rb_size b"
  have k: "(if rb_index b + 1 \<ge> rb_size b then 0 else rb_index b + 1) = ?k"
    using inv by (intro wrap_inc) simp_all
  have "0 \<le> ?k" "?k < int (length xs)" using inv by simp_all
  then show ?thesis
    using inv assms(2) by (simp add: rc_ringbuf_insert_def array_set_def Let_def k)
qed

lemma ring_inv_insert:
  assumes "ringbuf_inv b" "rb_d b = Some xs"
  shows "ringbuf_inv (b\<lparr>rb_d := Some (xs[nat ((rb_index b + 1) mod rb_size b) := v]),
                          rb_index := (rb_index b + 1) mod rb_size b\<rparr>)"
  using assms by (simp add: ringbuf_inv_def)

lemma ring_get_ok:
  assumes "ringbuf_inv b" "rb_d b = Some xs" "0 \<le> p" "p \<le> rb_size b - 1"
  shows "rc_ringbuf_get_value (Some b) p =
    Inr (0, Some (xs ! nat ((rb_index b - p) mod rb_size b)))"
proof -
  from assms have inv: "rb_initialized b = 1" "int (length xs) = rb_size b"
    "0 \<le> rb_index b" "rb_index b < rb_size b"
    by (simp_all add: ringbuf_inv_def)
  have k: "(rb_index b - p) mod rb_size b =
      (if rb_index b < p then rb_index b - p + rb_size b else rb_index b - p)"
    using inv assms by (intro wrap_dec) simp_all
  show ?thesis
    using inv assms by (simp add: rc_ringbuf_get_value_def array_get_def Let_def k)
qed

lemma ring_insert_lookback:
  fixes b :: "'a rc_ringbuf_t" and v :: 'a and p :: int
  assumes inv: "ringbuf_inv b" and d: "rb_d b = Some xs"
  defines "k \<equiv> (rb_index b + 1) mod rb_size b"
  defines "b' \<equiv> b\<lparr>rb_d := Some (xs[nat k := v]), rb_index := k\<rparr>"
  shows "rc_ringbuf_get_value (Some b') 0 = Inr (0, Some v)"
    and "0 \<le> p \<Longrightarrow> p \<le> rb_size b - 2 \<Longrightarrow>
         rc_ringbuf_get_value (Some b') (p + 1) = rc_ringbuf_get_value (Some b) p"
proof -
  from inv d have f: "int (length xs) = rb_size b" "2 \<le> rb_size b"
    "0 \<le> rb_index b" "rb_index b < rb_size b"
    by (simp_all add: ringbuf_inv_def)
  have k: "0 \<le> k" "k < rb_size b" using f by (simp_all add: k_def)
  have inv': "ringbuf_inv b'"
    unfolding b'_def k_def using inv d by (rule ring_inv_insert)
  have d': "rb_d b' = Some (xs[nat k := v])" and s': "rb_size b' = rb_size b"
    and i': "rb_index b' = k"
    by (simp_all add: b'_def)
  have "rc_ringbuf_get_value (Some b') 0 =
      Inr (0, Some (xs[nat k := v] ! nat ((rb_index b' - 0) mod rb_size b')))"
    using inv' d' f by (intro ring_get_ok) (simp_all add: s')
  also have "(rb_index b' - 0) mod rb_size b' = k" using k by (simp add: i' s')
  also have "xs[nat k := v] ! nat k = v" using k f by simp
  finally show "rc_ringbuf_get_value (Some b') 0 = Inr (0, Some v)" .
  assume p: "0 \<le> p" "p \<le> rb_size b - 2"
  let ?j = "(rb_index b - p) mod rb_size b"
  have j: "0 \<le> ?j" "?j \<noteq> k"
    using f other_slot [OF p, of "rb_index b"] by (simp_all add: k_def)
  have "rc_ringbuf_get_value (Some b') (p + 1) =
      Inr (0, Some (xs[nat k := v] ! nat ((rb_index b' - (p + 1)) mod rb_size b')))"
    using inv' d' p by (intro ring_get_ok) (simp_all add: s')
  also have "(rb_index b' - (p + 1)) mod rb_size b' = ?j"
    unfolding i' s' k_def by (rule shifted_index)
  also have "xs[nat k := v] ! nat ?j = xs ! nat ?j"
    using j k by (simp add: nat_eq_iff)
  also have "Inr (0, Some (xs ! nat ?j)) = rc_ringbuf_get_value (Some b) p"
    using inv d p by (intro ring_get_ok [symmetric]) simp_all
  finally show "rc_ringbuf_get_value (Some b') (p + 1) = rc_ringbuf_get_value (Some b) p" .
qed

subsection \<open>Ring buffer: the insert algorithm\<close>

text \<open>
  Claim C5. On an allocated (well-formed) ring buffer, \<open>rc_ringbuf_insert\<close> returns 0; it
  moves the cursor to \<open>(index + 1) mod size\<close> and stores the value in that slot, the rest
  of the struct being as before. A following \<open>rc_ringbuf_get_value\<close> at position 0
  returns the value that was just inserted.
\<close>

theorem ring_insert_advances_then_writes:
  assumes "ringbuf_inv b" "rb_initialized b \<noteq> 0"
  shows "\<exists>xs b'. rb_d b = Some xs \<and>
           b' = b\<lparr>rb_d := Some (xs[nat ((rb_index b + 1) mod rb_size b) := v]),
                   rb_index := (rb_index b + 1) mod rb_size b\<rparr> \<and>
           rc_ringbuf_insert (Some b) v = Inr (0, Some b') \<and>
           rc_ringbuf_get_value (Some b') 0 = Inr (0, Some v)"
proof -
  from assms obtain xs where d: "rb_d b = Some xs" by (rule ring_inv_allocated)
  show ?thesis
    using d ring_insert_ok [OF assms(1) d, of v] ring_insert_lookback(1) [OF assms(1) d, of v]
    by simp
qed

theorem ring_insert_advances_then_writes_witness:
  "ringbuf_inv \<lparr>rb_d = Some [5, 6, 7 :: int], rb_size = 3, rb_index = 2, rb_initialized = 1\<rparr> \<and>
   rb_initialized
     \<lparr>rb_d = Some [5, 6, 7 :: int], rb_size = 3, rb_index = 2, rb_initialized = 1\<rparr> \<noteq> 0 \<and>
   (\<exists>b'. rc_ringbuf_insert
          (Some \<lparr>rb_d = Some [5, 6, 7 :: int], rb_size = 3, rb_index = 2, rb_initialized = 1\<rparr>)
          9 = Inr (0, Some b') \<and>
        b' = \<lparr>rb_d = Some [9, 6, 7], rb_size = 3, rb_index = 0, rb_initialized = 1\<rparr> \<and>
        rc_ringbuf_get_value (Some b') 0 = Inr (0, Some 9))"
proof -
  let ?b = "\<lparr>rb_d = Some [5, 6, 7 :: int], rb_size = 3, rb_index = 2, rb_initialized = 1\<rparr>"
  have h: "ringbuf_inv ?b" "rb_initialized ?b \<noteq> 0" by (simp_all add: ringbuf_inv_def)
  from ring_insert_advances_then_writes [OF h, of 9] show ?thesis using h by simp
qed

subsection \<open>Ring buffer: frame and shift of an insert\<close>

text \<open>
  Claim C10. An insert on an allocated ring buffer changes one slot of the storage, the
  slot \<open>k\<close> of the new cursor: the storage keeps its length, slot \<open>k\<close> holds the inserted
  value and every other slot holds what it held before; capacity and flag are unchanged.
  So position 0 now reads the inserted value, and for every position \<open>p\<close> from 0 to
  \<open>size - 2\<close>, position \<open>p + 1\<close> after the insert reads what position \<open>p\<close> read before.
\<close>

theorem ring_insert_frame_and_shift:
  assumes "ringbuf_inv b" "rb_initialized b \<noteq> 0"
  shows "\<exists>xs ys k b'.
           rb_d b = Some xs \<and> rc_ringbuf_insert (Some b) v = Inr (0, Some b') \<and>
           rb_d b' = Some ys \<and> rb_index b' = k \<and> 0 \<le> k \<and> k < rb_size b \<and>
           rb_size b' = rb_size b \<and> rb_initialized b' = rb_initialized b \<and>
           length ys = length xs \<and> ys ! nat k = v \<and>
           (\<forall>i. i < length xs \<and> i \<noteq> nat k \<longrightarrow> ys ! i = xs ! i) \<and>
           rc_ringbuf_get_value (Some b') 0 = Inr (0, Some v) \<and>
           (\<forall>p. 0 \<le> p \<and> p \<le> rb_size b - 2 \<longrightarrow>
              rc_ringbuf_get_value (Some b') (p + 1) = rc_ringbuf_get_value (Some b) p)"
proof -
  from assms obtain xs where d: "rb_d b = Some xs" and f: "int (length xs) = rb_size b"
    "2 \<le> rb_size b" "0 \<le> rb_index b" "rb_index b < rb_size b"
    by (rule ring_inv_allocated)
  define k where "k = (rb_index b + 1) mod rb_size b"
  define b' where "b' = b\<lparr>rb_d := Some (xs[nat k := v]), rb_index := k\<rparr>"
  have k: "0 \<le> k" "k < rb_size b" using f by (simp_all add: k_def)
  have ins: "rc_ringbuf_insert (Some b) v = Inr (0, Some b')"
    unfolding b'_def k_def using assms(1) d by (rule ring_insert_ok)
  have g0: "rc_ringbuf_get_value (Some b') 0 = Inr (0, Some v)"
    unfolding b'_def k_def using assms(1) d by (rule ring_insert_lookback(1))
  have gs: "rc_ringbuf_get_value (Some b') (p + 1) = rc_ringbuf_get_value (Some b) p"
    if "0 \<le> p" "p \<le> rb_size b - 2" for p
    unfolding b'_def k_def using assms(1) d that by (rule ring_insert_lookback(2))
  have upd: "(xs[nat k := v]) ! nat k = v" using k f by simp
  show ?thesis
    apply (rule exI [of _ xs], rule exI [of _ "xs[nat k := v]"], rule exI [of _ k],
        rule exI [of _ b'])
    using d ins g0 gs k upd by (simp add: b'_def)
qed

theorem ring_insert_frame_and_shift_witness:
  "ringbuf_inv \<lparr>rb_d = Some [5, 6, 7 :: int], rb_size = 3, rb_index = 0, rb_initialized = 1\<rparr> \<and>
   rb_initialized
     \<lparr>rb_d = Some [5, 6, 7 :: int], rb_size = 3, rb_index = 0, rb_initialized = 1\<rparr> \<noteq> 0 \<and>
   (\<exists>b'. rc_ringbuf_insert
          (Some \<lparr>rb_d = Some [5, 6, 7 :: int], rb_size = 3, rb_index = 0, rb_initialized = 1\<rparr>)
          9 = Inr (0, Some b') \<and>
        rb_d b' = Some [5, 9, 7] \<and>
        rc_ringbuf_get_value (Some b') 0 = Inr (0, Some 9) \<and>
        rc_ringbuf_get_value (Some b') 1 = Inr (0, Some 5) \<and>
        rc_ringbuf_get_value (Some b') 2 = Inr (0, Some 7))"
proof -
  let ?b = "\<lparr>rb_d = Some [5, 6, 7 :: int], rb_size = 3, rb_index = 0, rb_initialized = 1\<rparr>"
  have h: "ringbuf_inv ?b" "rb_initialized ?b \<noteq> 0" by (simp_all add: ringbuf_inv_def)
  from ring_insert_frame_and_shift [OF h, of 9] show ?thesis
    using h
    by (simp add: rc_ringbuf_insert_def rc_ringbuf_get_value_def array_set_def array_get_def)
qed

subsection \<open>Ring buffer: the contract of look-back\<close>

text \<open>
  Claim C3. For every buffer struct and every position, \<open>rc_ringbuf_get_value\<close> returns
  \<open>-1\<close> exactly when the buffer is not initialized or the position is below 0 or above
  \<open>size - 1\<close>, and then stores nothing. On a well-formed buffer every other call returns 0
  and stores the element at index \<open>(index - position) mod size\<close>, where \<open>mod\<close> is the
  non-negative remainder (the source adds \<open>size\<close> to a negative difference).
\<close>

theorem ring_get_contract:
  shows "((\<exists>r. rc_ringbuf_get_value (Some b) p = Inr (- 1, r)) \<longleftrightarrow>
            (rb_initialized b = 0 \<or> p < 0 \<or> rb_size b - 1 < p)) \<and>
         (rb_initialized b = 0 \<or> p < 0 \<or> rb_size b - 1 < p \<longrightarrow>
            rc_ringbuf_get_value (Some b) p = Inr (- 1, None)) \<and>
         (ringbuf_inv b \<and> rb_initialized b \<noteq> 0 \<and> 0 \<le> p \<and> p \<le> rb_size b - 1 \<longrightarrow>
            (\<exists>xs. rb_d b = Some xs \<and>
               rc_ringbuf_get_value (Some b) p =
                 Inr (0, Some (xs ! nat ((rb_index b - p) mod rb_size b)))))"
proof (intro conjI impI)
  show "(\<exists>r. rc_ringbuf_get_value (Some b) p = Inr (- 1, r)) \<longleftrightarrow>
      (rb_initialized b = 0 \<or> p < 0 \<or> rb_size b - 1 < p)"
    by (auto simp: rc_ringbuf_get_value_def Let_def split: sum.splits)
next
  assume "rb_initialized b = 0 \<or> p < 0 \<or> rb_size b - 1 < p"
  then show "rc_ringbuf_get_value (Some b) p = Inr (- 1, None)"
    by (auto simp: rc_ringbuf_get_value_def)
next
  assume a: "ringbuf_inv b \<and> rb_initialized b \<noteq> 0 \<and> 0 \<le> p \<and> p \<le> rb_size b - 1"
  then obtain xs where d: "rb_d b = Some xs" by (auto elim: ring_inv_allocated)
  with a ring_get_ok [of b xs p]
  show "\<exists>xs. rb_d b = Some xs \<and>
      rc_ringbuf_get_value (Some b) p =
        Inr (0, Some (xs ! nat ((rb_index b - p) mod rb_size b)))"
    by simp
qed

theorem ring_get_contract_witness:
  "ringbuf_inv \<lparr>rb_d = Some [5, 6, 7 :: int], rb_size = 3, rb_index = 0, rb_initialized = 1\<rparr> \<and>
   rc_ringbuf_get_value
     (Some \<lparr>rb_d = Some [5, 6, 7 :: int], rb_size = 3, rb_index = 0, rb_initialized = 1\<rparr>) 1
     = Inr (0, Some 7) \<and>
   rc_ringbuf_get_value
     (Some \<lparr>rb_d = Some [5, 6, 7 :: int], rb_size = 3, rb_index = 0, rb_initialized = 1\<rparr>) 3
     = Inr (- 1, None)"
  using
    ring_get_contract
      [of "\<lparr>rb_d = Some [5, 6, 7 :: int], rb_size = 3, rb_index = 0, rb_initialized = 1\<rparr>" 1]
    ring_get_contract
      [of "\<lparr>rb_d = Some [5, 6, 7 :: int], rb_size = 3, rb_index = 0, rb_initialized = 1\<rparr>" 3]
  by (simp add: ringbuf_inv_def)

subsection \<open>Ring buffer: reading a fresh buffer\<close>

text \<open>
  Claim C7, as the code has it. For every capacity \<open>c \<ge> 2\<close>, the empty ring buffer can be
  allocated with capacity \<open>c\<close> (\<open>rc_ringbuf_alloc\<close> returns 0 when \<open>calloc\<close> returns
  storage), and whenever \<open>rc_ringbuf_alloc\<close> has returned 0 on the empty buffer, the
  storage is \<open>c\<close> zeros and \<open>rc_ringbuf_get_value\<close> at position 0, before any insert,
  returns 0 and stores the zero of the element type.
\<close>

theorem ring_fresh_reads_zero:
  assumes "2 \<le> c"
  shows "(\<exists>b0. rc_ringbuf_alloc True (Some (rc_ringbuf_empty :: 'a rc_ringbuf_t)) c =
            (0, Some b0)) \<and>
         (\<forall>mem_ok b0. rc_ringbuf_alloc mem_ok (Some rc_ringbuf_empty) c = (0, Some b0) \<longrightarrow>
            rb_d b0 = Some (replicate (nat c) 0) \<and>
            rc_ringbuf_get_value (Some b0) 0 = Inr (0, Some (0 :: 'a :: zero)))"
proof (intro conjI allI impI)
  let ?b0 = "\<lparr>rb_d = Some (replicate (nat c) (0 :: 'a)), rb_size = c, rb_index = 0,
    rb_initialized = 1\<rparr>"
  have a: "rc_ringbuf_alloc True (Some rc_ringbuf_empty) c = (0, Some ?b0)"
    using assms by (simp add: rc_ringbuf_alloc_def rc_ringbuf_empty_def calloc_def)
  then show "\<exists>b0 :: 'a rc_ringbuf_t.
      rc_ringbuf_alloc True (Some rc_ringbuf_empty) c = (0, Some b0)"
    by blast
  fix mem_ok and b0 :: "'a rc_ringbuf_t"
  assume s: "rc_ringbuf_alloc mem_ok (Some rc_ringbuf_empty) c = (0, Some b0)"
  have "mem_ok"
  proof (rule ccontr)
    assume "\<not> mem_ok"
    with assms s show False
      by (simp add: rc_ringbuf_alloc_def rc_ringbuf_empty_def calloc_def)
  qed
  with s a have b0: "b0 = ?b0" by simp
  have "ringbuf_inv ?b0" using assms by (simp add: ringbuf_inv_def)
  then have "rc_ringbuf_get_value (Some ?b0) 0 =
      Inr (0, Some (replicate (nat c) (0 :: 'a) ! nat ((rb_index ?b0 - 0) mod rb_size ?b0)))"
    using assms by (intro ring_get_ok) simp_all
  then have g: "rc_ringbuf_get_value (Some ?b0) 0 = Inr (0, Some (0 :: 'a))"
    using assms by simp
  show "rb_d b0 = Some (replicate (nat c) 0)" by (simp add: b0)
  show "rc_ringbuf_get_value (Some b0) 0 = Inr (0, Some 0)" using g by (simp only: b0)
qed

theorem ring_fresh_reads_zero_witness:
  "(2 :: int) \<le> 5 \<and>
   (\<exists>b0. rc_ringbuf_alloc True (Some rc_ringbuf_empty) 5 = (0, Some b0) \<and>
      rb_d b0 = Some (replicate (nat 5) 0) \<and>
      rc_ringbuf_get_value (Some b0) 0 = Inr (0, Some (0 :: int)))"
proof -
  have h: "(2 :: int) \<le> 5" by simp
  from ring_fresh_reads_zero [OF h, where 'a = int] show ?thesis using h by blast
qed

text \<open>
  Claim C7, as it is stated, promises the zero value after every \<open>allocate\<close> with a capacity
  of at least 2. With capacity 5 on the empty buffer and \<open>calloc\<close> returning \<open>NULL\<close>,
  \<open>rc_ringbuf_alloc\<close> returns \<open>-1\<close> and leaves the empty buffer, and
  \<open>rc_ringbuf_get_value\<close> at position 0 then returns \<open>-1\<close> and stores nothing.
\<close>

theorem ring_read_after_failed_alloc_counterexample:
  "(2 :: int) \<le> 5 \<and>
   rc_ringbuf_alloc False (Some (rc_ringbuf_empty :: int rc_ringbuf_t)) 5 =
     (- 1, Some rc_ringbuf_empty) \<and>
   rc_ringbuf_get_value (Some (rc_ringbuf_empty :: int rc_ringbuf_t)) 0 = Inr (- 1, None) \<and>
   ring_run [Ring_alloc False 5, Ring_get_value 0] (rc_ringbuf_empty :: int rc_ringbuf_t) =
     Inr ([Ret (- 1), Ret_value (- 1) None], rc_ringbuf_empty)"
  by (simp add: rc_ringbuf_alloc_def rc_ringbuf_empty_def calloc_def rc_ringbuf_get_value_def
      pointee_def)

subsection \<open>Ring buffer: retention order\<close>

lemma ring_run_snoc:
  assumes "ring_run cs b = Inr (rs, b')" "ring_step c b' = Inr (r, b'')"
  shows "ring_run (cs @ [c]) b = Inr (rs @ [r], b'')"
  using assms
proof (induction cs arbitrary: b rs)
  case Nil
  then show ?case by simp
next
  case (Cons x cs)
  from Cons.prems(1) obtain r1 b1 rs1 where
    s: "ring_step x b = Inr (r1, b1)" and t: "ring_run cs b1 = Inr (rs1, b')"
    and rs: "rs = r1 # rs1"
    by (auto split: sum.splits)
  from Cons.IH [OF t Cons.prems(2)] s rs show ?case by simp
qed

lemma ring_step_insert:
  assumes "ringbuf_inv b" "rb_d b = Some xs"
  shows "ring_step (Ring_insert v) b =
    Inr (Ret 0, b\<lparr>rb_d := Some (xs[nat ((rb_index b + 1) mod rb_size b) := v]),
                     rb_index := (rb_index b + 1) mod rb_size b\<rparr>)"
  by (simp add: ring_insert_ok [OF assms] pointee_def)

lemma ring_run_inserts:
  assumes "ringbuf_inv b" "rb_initialized b \<noteq> 0"
  shows "\<exists>b'. ring_run (map Ring_insert vs) b = Inr (replicate (length vs) (Ret 0), b') \<and>
           ringbuf_inv b' \<and> rb_initialized b' \<noteq> 0 \<and> rb_size b' = rb_size b \<and>
           (\<forall>p. p < length vs \<and> int p < rb_size b \<longrightarrow>
              rc_ringbuf_get_value (Some b') (int p) = Inr (0, Some (rev vs ! p)))"
proof (induction vs rule: rev_induct)
  case Nil
  with assms show ?case by simp
next
  case (snoc v vs)
  then obtain b' where run: "ring_run (map Ring_insert vs) b =
      Inr (replicate (length vs) (Ret 0), b')"
    and inv': "ringbuf_inv b'" and init': "rb_initialized b' \<noteq> 0"
    and size': "rb_size b' = rb_size b"
    and look: "\<And>p. p < length vs \<Longrightarrow> int p < rb_size b \<Longrightarrow>
      rc_ringbuf_get_value (Some b') (int p) = Inr (0, Some (rev vs ! p))"
    by blast
  from inv' init' obtain xs where d': "rb_d b' = Some xs" by (rule ring_inv_allocated)
  define b'' where "b'' = b'\<lparr>rb_d := Some (xs[nat ((rb_index b' + 1) mod rb_size b') := v]),
    rb_index := (rb_index b' + 1) mod rb_size b'\<rparr>"
  have step: "ring_step (Ring_insert v) b' = Inr (Ret 0, b'')"
    unfolding b''_def using inv' d' by (rule ring_step_insert)
  have run'': "ring_run (map Ring_insert (vs @ [v])) b =
      Inr (replicate (length (vs @ [v])) (Ret 0), b'')"
    using ring_run_snoc [OF run step] by (simp add: replicate_append_same)
  have inv'': "ringbuf_inv b''"
    unfolding b''_def using inv' d' by (rule ring_inv_insert)
  have g0: "rc_ringbuf_get_value (Some b'') 0 = Inr (0, Some v)"
    unfolding b''_def using inv' d' by (rule ring_insert_lookback(1))
  have gs: "rc_ringbuf_get_value (Some b'') (q + 1) = rc_ringbuf_get_value (Some b') q"
    if "0 \<le> q" "q \<le> rb_size b' - 2" for q
    unfolding b''_def using inv' d' that by (rule ring_insert_lookback(2))
  have "rc_ringbuf_get_value (Some b'') (int p) = Inr (0, Some (rev (vs @ [v]) ! p))"
    if p: "p < length (vs @ [v])" "int p < rb_size b" for p
  proof (cases p)
    case 0
    with g0 show ?thesis by simp
  next
    case (Suc q)
    with p have q: "q < length vs" "int q < rb_size b" "int q \<le> rb_size b' - 2"
      by (simp_all add: size')
    have "rc_ringbuf_get_value (Some b'') (int q + 1) = rc_ringbuf_get_value (Some b') (int q)"
      using q by (intro gs) simp_all
    also have "\<dots> = Inr (0, Some (rev vs ! q))" using q by (intro look)
    finally show ?thesis using Suc by (simp add: add.commute)
  qed
  moreover have "rb_initialized b'' \<noteq> 0" "rb_size b'' = rb_size b"
    using init' size' by (simp_all add: b''_def)
  ultimately show ?case using run'' inv'' by blast
qed

lemma ring_alloc_fresh:
  assumes "2 \<le> c"
  shows "rc_ringbuf_alloc True (Some rc_ringbuf_empty) c =
      (0, Some \<lparr>rb_d = Some (replicate (nat c) 0), rb_size = c, rb_index = 0,
                 rb_initialized = 1\<rparr>)"
    and "ringbuf_inv \<lparr>rb_d = Some (replicate (nat c) 0), rb_size = c, rb_index = 0,
                 rb_initialized = 1\<rparr>"
  using assms
  by (simp_all add: rc_ringbuf_alloc_def rc_ringbuf_empty_def calloc_def ringbuf_inv_def)

text \<open>
  Claim C1. For every capacity \<open>c \<ge> 2\<close> and values \<open>v0 .. v(c-1)\<close>: allocating the empty
  ring buffer with capacity \<open>c\<close> and inserting the values in order, every call returns 0,
  and afterwards position 0 reads \<open>v(c-1)\<close> (the last value), position \<open>c - 1\<close> reads \<open>v0\<close>
  (the first), and position \<open>p\<close> reads the value inserted \<open>p\<close> steps before the last.
  With capacity 3 and the integers 1, 2, 3, 4 inserted in order, positions 0, 1, 2 read
  4, 3, 2, and no position reads 1 any more.
\<close>

theorem ring_retention_order:
  assumes "2 \<le> c" "int (length vs) = c"
  shows "(\<exists>b0 b'. rc_ringbuf_alloc True (Some rc_ringbuf_empty) c = (0, Some b0) \<and>
            ring_run (map Ring_insert vs) b0 = Inr (replicate (length vs) (Ret 0), b') \<and>
            rc_ringbuf_get_value (Some b') 0 = Inr (0, Some (last vs)) \<and>
            rc_ringbuf_get_value (Some b') (c - 1) = Inr (0, Some (hd vs)) \<and>
            (\<forall>p. p < length vs \<longrightarrow>
               rc_ringbuf_get_value (Some b') (int p) = Inr (0, Some (rev vs ! p)))) \<and>
         ring_run
           [Ring_alloc True 3, Ring_insert 1, Ring_insert 2, Ring_insert 3, Ring_insert 4,
            Ring_get_value 0, Ring_get_value 1, Ring_get_value 2]
           (rc_ringbuf_empty :: int rc_ringbuf_t) =
           Inr ([Ret 0, Ret 0, Ret 0, Ret 0, Ret 0,
                 Ret_value 0 (Some 4), Ret_value 0 (Some 3), Ret_value 0 (Some 2)],
                \<lparr>rb_d = Some [3, 4, 2], rb_size = 3, rb_index = 1, rb_initialized = 1\<rparr>) \<and>
         (\<forall>p r. rc_ringbuf_get_value
                  (Some \<lparr>rb_d = Some [3, 4, 2 :: int], rb_size = 3, rb_index = 1,
                          rb_initialized = 1\<rparr>) p = Inr (0, r) \<longrightarrow> r \<noteq> Some 1)"
proof (intro conjI)
  let ?b0 = "\<lparr>rb_d = Some (replicate (nat c) (0 :: 'a)), rb_size = c, rb_index = 0,
                 rb_initialized = 1\<rparr>"
  have n: "0 < length vs" using assms by auto
  from ring_run_inserts [of ?b0 vs] ring_alloc_fresh(2) [OF assms(1)]
  obtain b' where run: "ring_run (map Ring_insert vs) ?b0 =
      Inr (replicate (length vs) (Ret 0), b')"
    and look: "\<And>p. p < length vs \<Longrightarrow> int p < c \<Longrightarrow>
      rc_ringbuf_get_value (Some b') (int p) = Inr (0, Some (rev vs ! p))"
    by auto
  have all: "rc_ringbuf_get_value (Some b') (int p) = Inr (0, Some (rev vs ! p))"
    if "p < length vs" for p
    using that assms(2) by (intro look) simp_all
  have "rc_ringbuf_get_value (Some b') (int 0) = Inr (0, Some (rev vs ! 0))"
    using n by (rule all)
  then have first: "rc_ringbuf_get_value (Some b') 0 = Inr (0, Some (last vs))"
    using n by (simp add: rev_nth last_conv_nth)
  have "rc_ringbuf_get_value (Some b') (int (length vs - 1)) =
      Inr (0, Some (rev vs ! (length vs - 1)))"
    using n by (intro all) simp
  moreover have "int (length vs - 1) = c - 1" using n assms(2) by (cases vs) simp_all
  ultimately have oldest: "rc_ringbuf_get_value (Some b') (c - 1) = Inr (0, Some (hd vs))"
    using n by (simp add: rev_nth hd_conv_nth)
  show "\<exists>b0 b'. rc_ringbuf_alloc True (Some rc_ringbuf_empty) c = (0, Some b0) \<and>
      ring_run (map Ring_insert vs) b0 = Inr (replicate (length vs) (Ret 0), b') \<and>
      rc_ringbuf_get_value (Some b') 0 = Inr (0, Some (last vs)) \<and>
      rc_ringbuf_get_value (Some b') (c - 1) = Inr (0, Some (hd vs)) \<and>
      (\<forall>p. p < length vs \<longrightarrow>
         rc_ringbuf_get_value (Some b') (int p) = Inr (0, Some (rev vs ! p)))"
    using ring_alloc_fresh(1) [OF assms(1), where 'a = 'a] run first oldest all by blast
next
  show "ring_run
      [Ring_alloc True 3, Ring_insert 1, Ring_insert 2, Ring_insert 3, Ring_insert 4,
       Ring_get_value 0, Ring_get_value 1, Ring_get_value 2]
      (rc_ringbuf_empty :: int rc_ringbuf_t) =
      Inr ([Ret 0, Ret 0, Ret 0, Ret 0, Ret 0,
            Ret_value 0 (Some 4), Ret_value 0 (Some 3), Ret_value 0 (Some 2)],
           \<lparr>rb_d = Some [3, 4, 2], rb_size = 3, rb_index = 1, rb_initialized = 1\<rparr>)"
    by (simp add: rc_ringbuf_alloc_def rc_ringbuf_empty_def calloc_def rc_ringbuf_insert_def
        rc_ringbuf_get_value_def array_set_def array_get_def pointee_def numeral_3_eq_3)
next
  show "\<forall>p r. rc_ringbuf_get_value
      (Some \<lparr>rb_d = Some [3, 4, 2 :: int], rb_size = 3, rb_index = 1,
              rb_initialized = 1\<rparr>) p = Inr (0, r) \<longrightarrow> r \<noteq> Some 1"
  proof (intro allI impI)
    fix p :: int and r :: "int option"
    let ?b = "\<lparr>rb_d = Some [3, 4, 2 :: int], rb_size = 3, rb_index = 1, rb_initialized = 1\<rparr>"
    assume g: "rc_ringbuf_get_value (Some ?b) p = Inr (0, r)"
    have "p < 0 \<or> 2 < p \<or> p = 0 \<or> p = 1 \<or> p = 2" by arith
    then show "r \<noteq> Some 1"
      using g by (auto simp: rc_ringbuf_get_value_def array_get_def)
  qed
qed

theorem ring_retention_order_witness:
  "(2 :: int) \<le> 2 \<and> int (length [7, 8 :: int]) = 2 \<and>
   (\<exists>b0 b'. rc_ringbuf_alloc True (Some rc_ringbuf_empty) 2 = (0, Some b0) \<and>
      ring_run (map Ring_insert [7, 8 :: int]) b0 =
        Inr (replicate (length [7, 8 :: int]) (Ret 0), b') \<and>
      rc_ringbuf_get_value (Some b') 0 = Inr (0, Some (last [7, 8])) \<and>
      rc_ringbuf_get_value (Some b') (2 - 1) = Inr (0, Some (hd [7, 8])))"
proof -
  have h: "(2 :: int) \<le> 2" "int (length [7, 8 :: int]) = 2" by simp_all
  from ring_retention_order [OF h] show ?thesis using h by blast
qed

subsection \<open>Fifo buffer: push and pop on a well-formed buffer\<close>







text \<open>
  The sum does leave the range on a well-formed buffer of \<open>2^30 + 1\<close> elements, with
  \<open>tail = available = 2^30\<close>: the push is undefined there.
\<close>

lemma fifo_push_overflows_above_2_30:
  assumes "int (length xs) = 1073741825"
  shows "fifobuf_inv \<lparr>ff_d = Some xs, ff_size = 1073741825, ff_tail = 1073741824,
                       ff_available = 1073741824, ff_initialized = 1\<rparr> \<and>
         rc_fifobuf_push
           (Some \<lparr>ff_d = Some xs, ff_size = 1073741825, ff_tail = 1073741824,
                   ff_available = 1073741824, ff_initialized = 1\<rparr>) v =
           Inl Signed_Overflow"
  using assms by (simp add: fifobuf_inv_def rc_fifobuf_push_def c_add_def INT_MAX_def)





subsection \<open>Invariants\<close>



















subsection \<open>Fifo buffer: full and empty\<close>



subsection \<open>Release\<close>

text \<open>
  Claim C8. For every ring buffer struct and every fifo buffer struct, the \<open>free\<close> function
  returns 0 and leaves the empty struct (\<open>d = NULL\<close>, every \<open>int\<close> field 0); called again
  on the result it returns 0 again and leaves the same empty struct.
\<close>

theorem release_idempotent:
  fixes b :: "'a rc_ringbuf_t" and f :: "'b rc_fifobuf_t"
  shows "rc_ringbuf_free (Some b) =
           (0, Some \<lparr>rb_d = None, rb_size = 0, rb_index = 0, rb_initialized = 0\<rparr>) \<and>
         rc_ringbuf_free (snd (rc_ringbuf_free (Some b))) =
           (0, Some \<lparr>rb_d = None, rb_size = 0, rb_index = 0, rb_initialized = 0\<rparr>) \<and>
         rc_fifobuf_free (Some f) =
           (0, Some \<lparr>ff_d = None, ff_size = 0, ff_tail = 0, ff_available = 0,
                      ff_initialized = 0\<rparr>) \<and>
         rc_fifobuf_free (snd (rc_fifobuf_free (Some f))) =
           (0, Some \<lparr>ff_d = None, ff_size = 0, ff_tail = 0, ff_available = 0,
                      ff_initialized = 0\<rparr>)"
  by (simp add: rc_ringbuf_free_def rc_ringbuf_empty_def rc_fifobuf_free_def
      rc_fifobuf_empty_def)

theorem release_idempotent_witness:
  "rc_ringbuf_free
     (Some \<lparr>rb_d = Some [5, 6, 7 :: int], rb_size = 3, rb_index = 2, rb_initialized = 1\<rparr>) =
     (0, Some \<lparr>rb_d = None, rb_size = 0, rb_index = 0, rb_initialized = 0\<rparr>) \<and>
   rc_fifobuf_free
     (snd (rc_fifobuf_free
        (Some \<lparr>ff_d = Some [5, 6 :: int], ff_size = 2, ff_tail = 1, ff_available = 2,
                ff_initialized = 1\<rparr>))) =
     (0, Some \<lparr>ff_d = None, ff_size = 0, ff_tail = 0, ff_available = 0, ff_initialized = 0\<rparr>)"
  using release_idempotent
    [of "\<lparr>rb_d = Some [5, 6, 7 :: int], rb_size = 3, rb_index = 2, rb_initialized = 1\<rparr>"
        "\<lparr>ff_d = Some [5, 6 :: int], ff_size = 2, ff_tail = 1, ff_available = 2,
           ff_initialized = 1\<rparr>"]
  by blast

subsection \<open>Allocation\<close>

text \<open>
  Claim C6, as the code has it. For both buffer types \<open>alloc\<close> returns \<open>-1\<close> and leaves the
  struct as it was when the capacity is below 2. With a capacity of at least 2, a buffer
  that is initialized with this very capacity and has storage is left as it is and 0 is
  returned. In every other case the outcome depends on \<open>calloc\<close>: if it returns
  storage, \<open>alloc\<close> returns 0 and the buffer has the requested number of zero elements, the
  requested capacity, the flag set and the cursors (\<open>index\<close>; \<open>tail\<close> and \<open>available\<close>) at 0;
  if it returns \<open>NULL\<close>, \<open>alloc\<close> returns \<open>-1\<close> and leaves the empty struct.
\<close>

theorem alloc_contract_with_allocator:
  fixes b :: "'a::zero rc_ringbuf_t" and f :: "'b::zero rc_fifobuf_t"
  shows "(c < 2 \<longrightarrow> rc_ringbuf_alloc mem_ok (Some b) c = (- 1, Some b)) \<and>
         (2 \<le> c \<and> rb_initialized b \<noteq> 0 \<and> rb_size b = c \<and> rb_d b \<noteq> None \<longrightarrow>
            rc_ringbuf_alloc mem_ok (Some b) c = (0, Some b)) \<and>
         (2 \<le> c \<and> \<not> (rb_initialized b \<noteq> 0 \<and> rb_size b = c \<and> rb_d b \<noteq> None) \<longrightarrow>
            rc_ringbuf_alloc True (Some b) c =
              (0, Some \<lparr>rb_d = Some (replicate (nat c) 0), rb_size = c, rb_index = 0,
                         rb_initialized = 1\<rparr>) \<and>
            rc_ringbuf_alloc False (Some b) c =
              (- 1, Some \<lparr>rb_d = None, rb_size = 0, rb_index = 0, rb_initialized = 0\<rparr>)) \<and>
         (c < 2 \<longrightarrow> rc_fifobuf_alloc mem_ok (Some f) c = (- 1, Some f)) \<and>
         (2 \<le> c \<and> ff_initialized f \<noteq> 0 \<and> ff_size f = c \<and> ff_d f \<noteq> None \<longrightarrow>
            rc_fifobuf_alloc mem_ok (Some f) c = (0, Some f)) \<and>
         (2 \<le> c \<and> \<not> (ff_initialized f \<noteq> 0 \<and> ff_size f = c \<and> ff_d f \<noteq> None) \<longrightarrow>
            rc_fifobuf_alloc True (Some f) c =
              (0, Some \<lparr>ff_d = Some (replicate (nat c) 0), ff_size = c, ff_tail = 0,
                         ff_available = 0, ff_initialized = 1\<rparr>) \<and>
            rc_fifobuf_alloc False (Some f) c =
              (- 1, Some \<lparr>ff_d = None, ff_size = 0, ff_tail = 0, ff_available = 0,
                           ff_initialized = 0\<rparr>))"
proof -
  have r1: "rc_ringbuf_alloc mem_ok (Some b) c = (- 1, Some b)" if "c < 2"
    using that by (simp add: rc_ringbuf_alloc_def)
  have r2: "rc_ringbuf_alloc mem_ok (Some b) c = (0, Some b)"
    if "2 \<le> c \<and> rb_initialized b \<noteq> 0 \<and> rb_size b = c \<and> rb_d b \<noteq> None"
    using that by (auto simp: rc_ringbuf_alloc_def)
  have r3: "rc_ringbuf_alloc True (Some b) c =
        (0, Some \<lparr>rb_d = Some (replicate (nat c) 0), rb_size = c, rb_index = 0,
                   rb_initialized = 1\<rparr>) \<and>
      rc_ringbuf_alloc False (Some b) c =
        (- 1, Some \<lparr>rb_d = None, rb_size = 0, rb_index = 0, rb_initialized = 0\<rparr>)"
    if "2 \<le> c \<and> \<not> (rb_initialized b \<noteq> 0 \<and> rb_size b = c \<and> rb_d b \<noteq> None)"
    using that by (cases b) (auto simp: rc_ringbuf_alloc_def calloc_def Let_def)
  have f1: "rc_fifobuf_alloc mem_ok (Some f) c = (- 1, Some f)" if "c < 2"
    using that by (simp add: rc_fifobuf_alloc_def)
  have f2: "rc_fifobuf_alloc mem_ok (Some f) c = (0, Some f)"
    if "2 \<le> c \<and> ff_initialized f \<noteq> 0 \<and> ff_size f = c \<and> ff_d f \<noteq> None"
    using that by (auto simp: rc_fifobuf_alloc_def)
  have f3: "rc_fifobuf_alloc True (Some f) c =
        (0, Some \<lparr>ff_d = Some (replicate (nat c) 0), ff_size = c, ff_tail = 0,
                   ff_available = 0, ff_initialized = 1\<rparr>) \<and>
      rc_fifobuf_alloc False (Some f) c =
        (- 1, Some \<lparr>ff_d = None, ff_size = 0, ff_tail = 0, ff_available = 0,
                     ff_initialized = 0\<rparr>)"
    if "2 \<le> c \<and> \<not> (ff_initialized f \<noteq> 0 \<and> ff_size f = c \<and> ff_d f \<noteq> None)"
    using that by (cases f) (auto simp: rc_fifobuf_alloc_def calloc_def Let_def)
  from r1 r2 r3 f1 f2 f3 show ?thesis by blast
qed

theorem alloc_contract_with_allocator_witness:
  "(2 :: int) \<le> 3 \<and>
   rc_ringbuf_alloc True
     (Some \<lparr>rb_d = Some [5, 6 :: int], rb_size = 2, rb_index = 1, rb_initialized = 1\<rparr>) 3 =
     (0, Some \<lparr>rb_d = Some (replicate (nat 3) 0), rb_size = 3, rb_index = 0,
                rb_initialized = 1\<rparr>) \<and>
   rc_fifobuf_alloc True
     (Some \<lparr>ff_d = Some [5, 6, 7 :: int], ff_size = 3, ff_tail = 1, ff_available = 2,
             ff_initialized = 1\<rparr>) 3 =
     (0, Some \<lparr>ff_d = Some [5, 6, 7], ff_size = 3, ff_tail = 1, ff_available = 2,
                ff_initialized = 1\<rparr>)"
  using alloc_contract_with_allocator
    [of 3 True "\<lparr>rb_d = Some [5, 6 :: int], rb_size = 2, rb_index = 1, rb_initialized = 1\<rparr>"
        "\<lparr>ff_d = Some [5, 6, 7 :: int], ff_size = 3, ff_tail = 1, ff_available = 2,
           ff_initialized = 1\<rparr>"]
  by simp

text \<open>
  Claim C6, as it is stated, promises fresh zero-filled storage whenever the capacity is
  at least 2 and the buffer is not already allocated with it. With capacity 3 on the
  empty buffer and \<open>calloc\<close> returning \<open>NULL\<close>, both \<open>alloc\<close> functions return \<open>-1\<close> and the
  buffer has no storage.
\<close>

theorem alloc_without_memory_counterexample:
  "\<not> (3 :: int) < 2 \<and>
   rb_initialized (rc_ringbuf_empty :: int rc_ringbuf_t) = 0 \<and>
   rc_ringbuf_alloc False (Some (rc_ringbuf_empty :: int rc_ringbuf_t)) 3 =
     (- 1, Some \<lparr>rb_d = None, rb_size = 0, rb_index = 0, rb_initialized = 0\<rparr>) \<and>
   snd (rc_ringbuf_alloc False (Some (rc_ringbuf_empty :: int rc_ringbuf_t)) 3) \<noteq>
     Some \<lparr>rb_d = Some [0, 0, 0], rb_size = 3, rb_index = 0, rb_initialized = 1\<rparr> \<and>
   ff_initialized (rc_fifobuf_empty :: int rc_fifobuf_t) = 0 \<and>
   rc_fifobuf_alloc False (Some (rc_fifobuf_empty :: int rc_fifobuf_t)) 3 =
     (- 1, Some \<lparr>ff_d = None, ff_size = 0, ff_tail = 0, ff_available = 0,
                  ff_initialized = 0\<rparr>)"
  by (simp add: rc_ringbuf_alloc_def rc_ringbuf_empty_def rc_fifobuf_alloc_def
      rc_fifobuf_empty_def calloc_def)

end
